theory Spec2Isabelle
  imports Main
begin

section \<open>Python objects, truth testing and calls\<close>

text \<open>
  The two functions of \<^verbatim>\<open>laa.py\<close> scan a Python list whose entries are arbitrary
  objects and dispatch on the runtime type of each entry
  (\<^verbatim>\<open>isinstance(condition, bool)\<close>, \<^verbatim>\<open>isinstance(condition, types.FunctionType)\<close>).
  The objects are modelled by the datatype below. A function object
  (a \<^verbatim>\<open>lambda\<close> or a \<^verbatim>\<open>def\<close>) is a reference \<open>VFunction f\<close>; what calling it with no
  argument does is given by the program table, see \<open>program\<close>. \<open>VCallable f\<close> stands for
  an object that can be called but is not an instance of \<^verbatim>\<open>types.FunctionType\<close>
  (a builtin, a bound method, a \<^verbatim>\<open>functools.partial\<close>).
\<close>

datatype pyobj =
    VNone
  | VBool bool
  | VInt int
  | VStr string
  | VList "pyobj list"
  | VTuple "pyobj list"
  | VFunction nat
  | VCallable nat

text \<open>An exception object, by the name of its class and its message.\<close>

datatype exn = Exception string string

text \<open>
  The state has the part of the world the caller's functions can read and write
  (\<open>world\<close>, of any type) and the sequence of the calls made so far (\<open>calls\<close>), which
  only \<open>invoke\<close> extends and no function body can read.
\<close>

record 'w pystate =
  world :: 'w
  calls :: "nat list"

text \<open>
  The program table: what a call \<^verbatim>\<open>f()\<close> of the callable \<open>f\<close> does to the world, and
  the object it returns or the exception it raises. A function that needs an argument
  raises \<^verbatim>\<open>TypeError\<close> there.
\<close>

type_synonym 'w program = "nat \<Rightarrow> 'w \<Rightarrow> (exn + pyobj) \<times> 'w"

text \<open>\<^verbatim>\<open>isinstance(o, bool)\<close> and \<^verbatim>\<open>isinstance(o, types.FunctionType)\<close>.\<close>

fun isinstance_bool :: "pyobj \<Rightarrow> bool" where
  "isinstance_bool (VBool b) = True"
| "isinstance_bool obj = False"

fun isinstance_FunctionType :: "pyobj \<Rightarrow> bool" where
  "isinstance_FunctionType (VFunction f) = True"
| "isinstance_FunctionType obj = False"

text \<open>
  Python's truth value testing, which \<^verbatim>\<open>not condition_value\<close> and
  \<^verbatim>\<open>if condition_value\<close> apply: \<^verbatim>\<open>None\<close>, \<^verbatim>\<open>False\<close>, zero and the empty string, list
  and tuple are false, every other object is true. The objects modelled are those of the
  builtin types, whose truth test has no effect and does not raise.
\<close>

fun truthy :: "pyobj \<Rightarrow> bool" where
  "truthy VNone = False"
| "truthy (VBool b) = b"
| "truthy (VInt n) = (n \<noteq> 0)"
| "truthy (VStr s) = (s \<noteq> [])"
| "truthy (VList xs) = (xs \<noteq> [])"
| "truthy (VTuple xs) = (xs \<noteq> [])"
| "truthy (VFunction f) = True"
| "truthy (VCallable f) = True"

text \<open>
  The call \<^verbatim>\<open>condition()\<close>: the body of a callable runs on the world and the call is
  recorded; calling any other object raises \<^verbatim>\<open>TypeError\<close>.
\<close>

definition call_body :: "'w program \<Rightarrow> nat \<Rightarrow> 'w pystate \<Rightarrow> (exn + pyobj) \<times> 'w pystate" where
  "call_body prog f s =
     (case prog f (world s) of
        (r, w) \<Rightarrow> (r, \<lparr>world = w, calls = calls s @ [f]\<rparr>))"

fun invoke :: "'w program \<Rightarrow> pyobj \<Rightarrow> 'w pystate \<Rightarrow> (exn + pyobj) \<times> 'w pystate" where
  "invoke prog (VFunction f) s = call_body prog f s"
| "invoke prog (VCallable f) s = call_body prog f s"
| "invoke prog obj s = (Inl (Exception ''TypeError'' ''object is not callable''), s)"

section \<open>The two functions\<close>

text \<open>
  \<^verbatim>\<open>lazy_all\<close>, lines 86 to 98. The \<^verbatim>\<open>for\<close> loop is the recursion over the list, with
  the local variable \<^verbatim>\<open>evaluated\<close> as an argument; a \<^verbatim>\<open>return\<close> or an exception ends
  it. The result is the returned boolean (\<open>Inr\<close>) or the exception that left the
  function (\<open>Inl\<close>), with the state at that moment.
\<close>

fun lazy_all_loop ::
  "'w program \<Rightarrow> pyobj list \<Rightarrow> int \<Rightarrow> 'w pystate \<Rightarrow> (exn + bool) \<times> 'w pystate" where
  "lazy_all_loop prog [] evaluated s = (Inr (evaluated > 0), s)"
| "lazy_all_loop prog (condition # rest) evaluated s =
     (if isinstance_bool condition then
        (if \<not> truthy condition then (Inr False, s)
         else lazy_all_loop prog rest (evaluated + 1) s)
      else if isinstance_FunctionType condition then
        (case invoke prog condition s of
           (Inl e, s') \<Rightarrow> (Inl e, s')
         | (Inr condition_value, s') \<Rightarrow>
             (if \<not> truthy condition_value then (Inr False, s')
              else lazy_all_loop prog rest (evaluated + 1) s'))
      else lazy_all_loop prog rest evaluated s)"

definition lazy_all :: "'w program \<Rightarrow> pyobj list \<Rightarrow> 'w pystate \<Rightarrow> (exn + bool) \<times> 'w pystate" where
  "lazy_all prog list_of_conditions s = lazy_all_loop prog list_of_conditions 0 s"

text \<open>\<^verbatim>\<open>lazy_any\<close>, lines 163 to 172.\<close>

fun lazy_any :: "'w program \<Rightarrow> pyobj list \<Rightarrow> 'w pystate \<Rightarrow> (exn + bool) \<times> 'w pystate" where
  "lazy_any prog [] s = (Inr False, s)"
| "lazy_any prog (condition # rest) s =
     (if isinstance_bool condition then
        (if truthy condition then (Inr True, s)
         else lazy_any prog rest s)
      else if isinstance_FunctionType condition then
        (case invoke prog condition s of
           (Inl e, s') \<Rightarrow> (Inl e, s')
         | (Inr condition_value, s') \<Rightarrow>
             (if truthy condition_value then (Inr True, s')
              else lazy_any prog rest s'))
      else lazy_any prog rest s)"

section \<open>The two functions on a list that lives in the heap\<close>

text \<open>
  The functions above take the list as a value. In Python the argument is a reference
  to a list object that the caller's functions may reach too, and the \<^verbatim>\<open>for\<close> loop
  reads that object through a list iterator: at each step it compares its index with the
  length the list has at that moment and reads the entry at the index. Below, the list
  object is the field \<open>list_of_conditions\<close> of the heap, the rest of the heap is
  \<open>others\<close>, and the loops are written with the iterator's index. A loop over a list
  that a called function keeps extending does not end, so the result is an option: \<open>None\<close>
  when the call does not return.
\<close>

record 'u heap =
  list_of_conditions :: "pyobj list"
  others :: 'u

partial_function (option) lazy_all_iter ::
  "'u heap program \<Rightarrow> nat \<Rightarrow> int \<Rightarrow> 'u heap pystate \<Rightarrow> ((exn + bool) \<times> 'u heap pystate) option" where
  "lazy_all_iter prog i evaluated s =
     (if i < length (list_of_conditions (world s)) then
        (let condition = list_of_conditions (world s) ! i in
         if isinstance_bool condition then
           (if \<not> truthy condition then Some (Inr False, s)
            else lazy_all_iter prog (i + 1) (evaluated + 1) s)
         else if isinstance_FunctionType condition then
           (case invoke prog condition s of
              (Inl e, s') \<Rightarrow> Some (Inl e, s')
            | (Inr condition_value, s') \<Rightarrow>
                (if \<not> truthy condition_value then Some (Inr False, s')
                 else lazy_all_iter prog (i + 1) (evaluated + 1) s'))
         else lazy_all_iter prog (i + 1) evaluated s)
      else Some (Inr (evaluated > 0), s))"

definition lazy_all_in_heap ::
  "'u heap program \<Rightarrow> 'u heap pystate \<Rightarrow> ((exn + bool) \<times> 'u heap pystate) option" where
  "lazy_all_in_heap prog s = lazy_all_iter prog 0 0 s"

partial_function (option) lazy_any_iter ::
  "'u heap program \<Rightarrow> nat \<Rightarrow> 'u heap pystate \<Rightarrow> ((exn + bool) \<times> 'u heap pystate) option" where
  "lazy_any_iter prog i s =
     (if i < length (list_of_conditions (world s)) then
        (let condition = list_of_conditions (world s) ! i in
         if isinstance_bool condition then
           (if truthy condition then Some (Inr True, s)
            else lazy_any_iter prog (i + 1) s)
         else if isinstance_FunctionType condition then
           (case invoke prog condition s of
              (Inl e, s') \<Rightarrow> Some (Inl e, s')
            | (Inr condition_value, s') \<Rightarrow>
                (if truthy condition_value then Some (Inr True, s')
                 else lazy_any_iter prog (i + 1) s'))
         else lazy_any_iter prog (i + 1) s)
      else Some (Inr False, s))"

definition lazy_any_in_heap ::
  "'u heap program \<Rightarrow> 'u heap pystate \<Rightarrow> ((exn + bool) \<times> 'u heap pystate) option" where
  "lazy_any_in_heap prog s = lazy_any_iter prog 0 s"

section \<open>Vocabulary of the properties\<close>

text \<open>
  What considering one entry of the list does, as both loops have it in their first
  lines (88 to 95 and 164 to 169): a boolean yields its value, a function is called and
  yields the truth value of what it returns unless it raises, any other object is
  skipped.
\<close>

datatype verdict = Skipped | Yields bool | Raises exn

definition evaluate :: "'w program \<Rightarrow> pyobj \<Rightarrow> 'w pystate \<Rightarrow> verdict \<times> 'w pystate" where
  "evaluate prog condition s =
     (if isinstance_bool condition then (Yields (truthy condition), s)
      else if isinstance_FunctionType condition then
        (case invoke prog condition s of
           (Inl e, s') \<Rightarrow> (Raises e, s')
         | (Inr condition_value, s') \<Rightarrow> (Yields (truthy condition_value), s'))
      else (Skipped, s))"

text \<open>
  \<open>scan prog b xs s = Some s'\<close>: considered one after the other from the state \<open>s\<close>, every
  entry of \<open>xs\<close> is skipped or yields \<open>b\<close>, none raises, and \<open>s'\<close> is the state at the end.
\<close>

fun scan :: "'w program \<Rightarrow> bool \<Rightarrow> pyobj list \<Rightarrow> 'w pystate \<Rightarrow> 'w pystate option" where
  "scan prog b [] s = Some s"
| "scan prog b (condition # rest) s =
     (case evaluate prog condition s of
        (Skipped, s') \<Rightarrow> scan prog b rest s'
      | (Yields v, s') \<Rightarrow> (if v = b then scan prog b rest s' else None)
      | (Raises e, s') \<Rightarrow> None)"

text \<open>The entries that are evaluated: booleans and functions.\<close>

definition is_evaluated :: "pyobj \<Rightarrow> bool" where
  "is_evaluated condition = (isinstance_bool condition \<or> isinstance_FunctionType condition)"

text \<open>The functions of a list, in the order of the list.\<close>

fun function_ids :: "pyobj list \<Rightarrow> nat list" where
  "function_ids [] = []"
| "function_ids (VFunction f # rest) = f # function_ids rest"
| "function_ids (obj # rest) = function_ids rest"

text \<open>
  \<open>written_by_calls prog s s'\<close>: the state \<open>s'\<close> comes from \<open>s\<close> by calls of functions of
  the program, one after the other, and by nothing else.
\<close>

definition written_by_calls :: "'w program \<Rightarrow> 'w pystate \<Rightarrow> 'w pystate \<Rightarrow> bool" where
  "written_by_calls prog s s' =
     (\<exists>cs. calls s' = calls s @ cs \<and> world s' = foldl (\<lambda>h f. snd (prog f h)) (world s) cs)"

text \<open>No function of the program writes the list object.\<close>

definition leaves_list :: "'u heap program \<Rightarrow> bool" where
  "leaves_list prog = (\<forall>f h. list_of_conditions (snd (prog f h)) = list_of_conditions h)"

section \<open>Python's own \<^verbatim>\<open>any\<close>, \<^verbatim>\<open>all\<close> and \<^verbatim>\<open>or\<close>\<close>

text \<open>
  The builtins \<^verbatim>\<open>any\<close> and \<^verbatim>\<open>all\<close> on a list of booleans, as the language reference
  gives them (a loop that returns at the first true, respectively false, element), and
  the expression \<^verbatim>\<open>p() or q()\<close> for two calls that return booleans: \<^verbatim>\<open>q\<close> is called
  only when \<^verbatim>\<open>p\<close> returned \<^verbatim>\<open>False\<close>, in the state \<^verbatim>\<open>p\<close> left.
\<close>

fun std_any :: "bool list \<Rightarrow> bool" where
  "std_any [] = False"
| "std_any (element # rest) = (if element then True else std_any rest)"

fun std_all :: "bool list \<Rightarrow> bool" where
  "std_all [] = True"
| "std_all (element # rest) = (if \<not> element then False else std_all rest)"

definition py_or ::
  "('s \<Rightarrow> (exn + bool) \<times> 's) \<Rightarrow> ('s \<Rightarrow> (exn + bool) \<times> 's) \<Rightarrow> 's \<Rightarrow> (exn + bool) \<times> 's" where
  "py_or p q s =
     (case p s of
        (Inl e, s1) \<Rightarrow> (Inl e, s1)
      | (Inr b, s1) \<Rightarrow> (if b then (Inr True, s1) else q s1))"

section \<open>A program to run the functions on\<close>

text \<open>
  Five functions that each add one to a counter, the world: function 0 returns
  \<^verbatim>\<open>True\<close>, 1 returns \<^verbatim>\<open>False\<close>, 2 returns \<^verbatim>\<open>5\<close>, 3 returns \<^verbatim>\<open>0\<close>, and every other one
  raises \<^verbatim>\<open>ZeroDivisionError\<close>.
\<close>

definition demo :: "nat program" where
  "demo f w =
     (if f = 0 then (Inr (VBool True), w + 1)
      else if f = 1 then (Inr (VBool False), w + 1)
      else if f = 2 then (Inr (VInt 5), w + 1)
      else if f = 3 then (Inr (VInt 0), w + 1)
      else (Inl (Exception ''ZeroDivisionError'' ''division by zero''), w + 1))"

definition start :: "nat pystate" where
  "start = \<lparr>world = 0, calls = []\<rparr>"

text \<open>
  Functions that never raise: \<open>threshold\<close> counts the calls in the world and function \<open>f\<close>
  returns whether \<open>f\<close> calls were made before; \<open>parity\<close> leaves the world as it is and
  function \<open>f\<close> returns \<open>f mod 2\<close>.
\<close>

definition threshold :: "nat program" where
  "threshold f w = (Inr (VBool (f \<le> w)), w + 1)"

definition parity :: "nat program" where
  "parity f w = (Inr (VInt (int (f mod 2))), w)"

text \<open>
  Programs on a heap: every function of \<open>appender\<close> appends \<^verbatim>\<open>False\<close> to the list
  object and returns \<^verbatim>\<open>True\<close>; the functions of \<open>counter\<close> leave the list alone and
  count their calls in the rest of the heap, and only function 0 returns \<^verbatim>\<open>True\<close>.
\<close>

definition appender :: "nat heap program" where
  "appender f h =
     (Inr (VBool True),
      h\<lparr>list_of_conditions := list_of_conditions h @ [VBool False], others := others h + 1\<rparr>)"

definition counter :: "nat heap program" where
  "counter f h = (Inr (VBool (f = 0)), h\<lparr>others := others h + 1\<rparr>)"

definition listed :: "pyobj list \<Rightarrow> nat heap pystate" where
  "listed xs = \<lparr>world = \<lparr>list_of_conditions = xs, others = 0\<rparr>, calls = []\<rparr>"

section \<open>The loops on a list that is considered in two parts\<close>

lemma function_ids_append: "function_ids (xs @ ys) = function_ids xs @ function_ids ys"
  by (induction xs rule: function_ids.induct) auto

lemma evaluate_calls:
  "evaluate prog c s = (v, s') \<Longrightarrow> calls s' = calls s @ function_ids [c]"
  by (cases c) (auto simp: evaluate_def call_body_def split: prod.splits sum.splits)

lemma scan_calls:
  "scan prog b xs s = Some s' \<Longrightarrow> calls s' = calls s @ function_ids xs"
proof (induction xs arbitrary: s)
  case Nil
  then show ?case by simp
next
  case (Cons c xs)
  obtain v s1 where c: "evaluate prog c s = (v, s1)" by (cases "evaluate prog c s")
  from Cons.prems c have "scan prog b xs s1 = Some s'"
    by (cases v) (auto split: if_splits)
  from Cons.IH[OF this] evaluate_calls[OF c] show ?case
    using function_ids_append[of "[c]" xs] by simp
qed

lemma lazy_all_loop_append:
  "scan prog True pre s = Some s1 \<Longrightarrow>
   lazy_all_loop prog (pre @ rest) n s =
   lazy_all_loop prog rest (n + int (length (filter is_evaluated pre))) s1"
proof (induction pre arbitrary: s n)
  case Nil
  then show ?case by simp
next
  case (Cons c pre)
  then show ?case
    by (auto simp: evaluate_def is_evaluated_def add.assoc split: if_splits prod.splits sum.splits)
qed

lemma lazy_any_append:
  "scan prog False pre s = Some s1 \<Longrightarrow> lazy_any prog (pre @ rest) s = lazy_any prog rest s1"
proof (induction pre arbitrary: s)
  case Nil
  then show ?case by simp
next
  case (Cons c pre)
  then show ?case
    by (auto simp: evaluate_def split: if_splits prod.splits sum.splits)
qed


lemma scan_skipped:
  "\<forall>c\<in>set xs. \<not> is_evaluated c \<Longrightarrow> scan prog b xs s = Some s"
  by (induction xs) (auto simp: evaluate_def is_evaluated_def)

lemma lazy_any_True_split:
  "lazy_any prog xs s = (Inr True, s2) \<Longrightarrow>
   \<exists>pre c post s1. xs = pre @ c # post \<and> scan prog False pre s = Some s1 \<and>
     evaluate prog c s1 = (Yields True, s2)"
proof (induction xs arbitrary: s)
  case Nil
  then show ?case by simp
next
  case (Cons a xs)
  obtain v t where a: "evaluate prog a s = (v, t)" by (cases "evaluate prog a s")
  show ?case
  proof (cases "v = Yields True")
    case True
    with a Cons.prems have "t = s2"
      by (auto simp: evaluate_def split: if_splits prod.splits sum.splits)
    with a True have "a # xs = [] @ a # xs \<and> scan prog False [] s = Some s \<and>
        evaluate prog a s = (Yields True, s2)" by simp
    then show ?thesis by blast
  next
    case False
    with a Cons.prems have rest: "lazy_any prog xs t = (Inr True, s2)" and nr: "v = Skipped \<or> v = Yields False"
      by (auto simp: evaluate_def split: if_splits prod.splits sum.splits)
    from Cons.IH[OF rest] obtain pre c post s1 where
      *: "xs = pre @ c # post" "scan prog False pre t = Some s1" "evaluate prog c s1 = (Yields True, s2)"
      by blast
    from a nr * have "a # xs = (a # pre) @ c # post \<and> scan prog False (a # pre) s = Some s1 \<and>
        evaluate prog c s1 = (Yields True, s2)" by auto
    then show ?thesis by blast
  qed
qed

lemma lazy_any_at_True:
  "scan prog False pre s = Some s1 \<Longrightarrow> evaluate prog c s1 = (Yields True, s2) \<Longrightarrow>
   lazy_any prog (pre @ c # post) s = (Inr True, s2)"
  by (simp add: lazy_any_append) (auto simp: evaluate_def split: if_splits prod.splits sum.splits)

lemma lazy_any_False_scan:
  "lazy_any prog xs s = (Inr False, s') \<longleftrightarrow> scan prog False xs s = Some s'"
proof (induction xs arbitrary: s)
  case Nil
  then show ?case by auto
next
  case (Cons a xs)
  then show ?case
    by (auto simp: evaluate_def split: if_splits prod.splits sum.splits)
qed

lemma lazy_any_returns:
  assumes "\<forall>f w. \<exists>v w'. prog f w = (Inr v, w')"
  shows "\<exists>b s'. lazy_any prog xs s = (Inr b, s')"
proof (induction xs arbitrary: s)
  case Nil
  then show ?case by auto
next
  case (Cons c xs)
  show ?case
  proof (cases c)
    case (VFunction f)
    from assms obtain v w' where "prog f (world s) = (Inr v, w')" by blast
    with VFunction Cons.IH show ?thesis by (auto simp: call_body_def)
  qed (use Cons.IH in auto)
qed

lemma lazy_any_calls_prefix:
  "\<exists>k\<le>length xs. calls (snd (lazy_any prog xs s)) = calls s @ function_ids (take k xs)"
proof (induction xs arbitrary: s)
  case Nil
  then show ?case by simp
next
  case (Cons c xs)
  obtain v t where c: "evaluate prog c s = (v, t)" by (cases "evaluate prog c s")
  note ct = evaluate_calls[OF c]
  show ?case
  proof (cases "v = Skipped \<or> v = Yields False")
    case True
    with c have "lazy_any prog (c # xs) s = lazy_any prog xs t"
      by (auto simp: evaluate_def split: if_splits prod.splits sum.splits)
    moreover from Cons.IH[of t] obtain k where
      "k \<le> length xs" "calls (snd (lazy_any prog xs t)) = calls t @ function_ids (take k xs)"
      by blast
    ultimately have "Suc k \<le> length (c # xs) \<and>
        calls (snd (lazy_any prog (c # xs) s)) = calls s @ function_ids (take (Suc k) (c # xs))"
      using ct function_ids_append[of "[c]" "take k xs"] by simp
    then show ?thesis by blast
  next
    case False
    with c have "snd (lazy_any prog (c # xs) s) = t"
      by (cases v) (auto simp: evaluate_def split: if_splits prod.splits sum.splits)
    with ct have "Suc 0 \<le> length (c # xs) \<and>
        calls (snd (lazy_any prog (c # xs) s)) = calls s @ function_ids (take (Suc 0) (c # xs))"
      by simp
    then show ?thesis by blast
  qed
qed

lemma lazy_all_loop_skip:
  "\<not> is_evaluated c \<Longrightarrow>
   lazy_all_loop prog (pre @ c # post) n s = lazy_all_loop prog (pre @ post) n s"
  by (induction pre arbitrary: n s)
     (auto simp: is_evaluated_def split: prod.splits sum.splits)

lemma lazy_any_skip:
  "\<not> is_evaluated c \<Longrightarrow> lazy_any prog (pre @ c # post) s = lazy_any prog (pre @ post) s"
  by (induction pre arbitrary: s)
     (auto simp: is_evaluated_def split: prod.splits sum.splits)

lemma falsy_objects:
  "\<not> truthy v \<longleftrightarrow> v \<in> {VNone, VBool False, VInt 0, VStr [], VList [], VTuple []}"
  by (cases v) auto

lemma lazy_any_bools: "lazy_any prog (map VBool bs) s = (Inr (std_any bs), s)"
  by (induction bs) auto

lemma lazy_all_loop_bools:
  "0 \<le> n \<Longrightarrow>
   lazy_all_loop prog (map VBool bs) n s = (Inr (std_all bs \<and> 0 < n + int (length bs)), s)"
  by (induction bs arbitrary: n) auto

lemma lazy_any_py_or:
  "lazy_any prog (l1 @ l2) s = py_or (lazy_any prog l1) (lazy_any prog l2) s"
proof (induction l1 arbitrary: s)
  case Nil
  then show ?case by (simp add: py_or_def)
next
  case (Cons c l1)
  then show ?case
    by (auto simp: py_or_def split: prod.splits sum.splits)
qed

section \<open>What the result of \<open>lazy_any\<close> depends on\<close>

lemma lazy_any_world_only:
  "world s = world t \<Longrightarrow>
   fst (lazy_any prog xs s) = fst (lazy_any prog xs t) \<and>
   world (snd (lazy_any prog xs s)) = world (snd (lazy_any prog xs t))"
proof (induction xs arbitrary: s t)
  case Nil
  then show ?case by simp
next
  case (Cons c xs)
  note eq = Cons.prems
  note here = Cons.IH[OF eq]
  show ?case
  proof (cases c)
    case (VFunction f)
    obtain r w where p: "prog f (world t) = (r, w)" by (cases "prog f (world t)")
    have "world \<lparr>world = w, calls = calls s @ [f]\<rparr> = world \<lparr>world = w, calls = calls t @ [f]\<rparr>"
      by simp
    note there = Cons.IH[OF this]
    show ?thesis
    proof (cases r)
      case (Inl e)
      with VFunction p eq show ?thesis by (simp add: call_body_def)
    next
      case (Inr v)
      with VFunction p eq there show ?thesis by (simp add: call_body_def)
    qed
  next
    case (VBool b)
    with here eq show ?thesis by simp
  qed (use here in simp_all)
qed

lemma lazy_any_pure_world:
  assumes pure: "\<forall>f w. snd (prog f w) = w"
  shows "world (snd (lazy_any prog xs s)) = world s"
proof (induction xs arbitrary: s)
  case Nil
  then show ?case by simp
next
  case (Cons c xs)
  show ?case
  proof (cases c)
    case (VFunction f)
    obtain r w where p: "prog f (world s) = (r, w)" by (cases "prog f (world s)")
    from pure have "snd (prog f (world s)) = world s" by simp
    with p have w: "w = world s" by simp
    have there: "world (snd (lazy_any prog xs \<lparr>world = w, calls = calls s @ [f]\<rparr>)) = w"
      using Cons.IH[of "\<lparr>world = w, calls = calls s @ [f]\<rparr>"] by simp
    show ?thesis
    proof (cases r)
      case (Inl e)
      with VFunction p w show ?thesis by (simp add: call_body_def)
    next
      case (Inr v)
      with VFunction p w there show ?thesis by (simp add: call_body_def)
    qed
  next
    case (VBool b)
    with Cons.IH[of s] show ?thesis by simp
  qed (use Cons.IH[of s] in simp_all)
qed

section \<open>The loops over the list in the heap\<close>

text \<open>
  Whatever a call on the list in the heap leaves is written by the functions it called
  (\<open>lazy_all_iter_written\<close>, \<open>lazy_any_iter_written\<close>), and when none of them writes
  the list object the loops with the index are the loops over the list as a value
  (\<open>lazy_all_iter_refines\<close>, \<open>lazy_any_iter_refines\<close>).
\<close>

lemma written_by_calls_refl: "written_by_calls prog s s"
  unfolding written_by_calls_def by (rule exI[of _ "[]"]) simp

lemma written_by_calls_trans:
  assumes "written_by_calls prog s t" and "written_by_calls prog t u"
  shows "written_by_calls prog s u"
proof -
  from assms obtain cs ds where
    "calls t = calls s @ cs" "world t = foldl (\<lambda>h f. snd (prog f h)) (world s) cs"
    "calls u = calls t @ ds" "world u = foldl (\<lambda>h f. snd (prog f h)) (world t) ds"
    unfolding written_by_calls_def by blast
  then have "calls u = calls s @ (cs @ ds) \<and>
      world u = foldl (\<lambda>h f. snd (prog f h)) (world s) (cs @ ds)" by simp
  then show ?thesis unfolding written_by_calls_def by blast
qed

lemma invoke_written:
  assumes "isinstance_FunctionType c" and "invoke prog c s = (r, s')"
  shows "written_by_calls prog s s'"
proof -
  from assms(1) obtain f where c: "c = VFunction f" by (cases c) auto
  with assms(2) have "calls s' = calls s @ [f] \<and>
      world s' = foldl (\<lambda>h f. snd (prog f h)) (world s) [f]"
    by (auto simp: call_body_def split: prod.splits)
  then show ?thesis unfolding written_by_calls_def by blast
qed

lemma lazy_all_iter_written:
  assumes "lazy_all_iter prog i n s = Some y"
  shows "written_by_calls prog s (snd y)"
  using assms
proof (induct prog i n s y rule: lazy_all_iter.raw_induct[rotated 1, consumes 1])
  case (1 rec prog i n s y)
  show ?case
  proof (cases "i < length (list_of_conditions (world s))")
    case False
    with 1(2) show ?thesis by (auto simp: written_by_calls_refl)
  next
    case True
    let ?c = "list_of_conditions (world s) ! i"
    show ?thesis
    proof (cases "isinstance_bool ?c")
      case b: True
      with True 1 show ?thesis
        by (auto simp: Let_def written_by_calls_refl split: if_splits)
    next
      case nb: False
      show ?thesis
      proof (cases "isinstance_FunctionType ?c")
        case False
        with nb True 1 show ?thesis by (auto simp: Let_def)
      next
        case fn: True
        obtain r t where inv: "invoke prog ?c s = (r, t)" by (cases "invoke prog ?c s")
        note w = invoke_written[OF fn inv]
        show ?thesis
        proof (cases r)
          case (Inl e)
          with nb fn True inv 1(2) w show ?thesis by (auto simp: Let_def)
        next
          case (Inr v)
          show ?thesis
          proof (cases "truthy v")
            case False
            with Inr nb fn True inv 1(2) w show ?thesis by (auto simp: Let_def)
          next
            case tv: True
            with Inr nb fn True inv 1(2) have "rec prog (i + 1) (n + 1) t = Some y"
              by (auto simp: Let_def)
            from 1(1)[OF this] w show ?thesis by (rule written_by_calls_trans[rotated])
          qed
        qed
      qed
    qed
  qed
qed

lemma lazy_any_iter_written:
  assumes "lazy_any_iter prog i s = Some y"
  shows "written_by_calls prog s (snd y)"
  using assms
proof (induct prog i s y rule: lazy_any_iter.raw_induct[rotated 1, consumes 1])
  case (1 rec prog i s y)
  show ?case
  proof (cases "i < length (list_of_conditions (world s))")
    case False
    with 1(2) show ?thesis by (auto simp: written_by_calls_refl)
  next
    case True
    let ?c = "list_of_conditions (world s) ! i"
    show ?thesis
    proof (cases "isinstance_bool ?c")
      case b: True
      with True 1 show ?thesis
        by (auto simp: Let_def written_by_calls_refl split: if_splits)
    next
      case nb: False
      show ?thesis
      proof (cases "isinstance_FunctionType ?c")
        case False
        with nb True 1 show ?thesis by (auto simp: Let_def)
      next
        case fn: True
        obtain r t where inv: "invoke prog ?c s = (r, t)" by (cases "invoke prog ?c s")
        note w = invoke_written[OF fn inv]
        show ?thesis
        proof (cases r)
          case (Inl e)
          with nb fn True inv 1(2) w show ?thesis by (auto simp: Let_def)
        next
          case (Inr v)
          show ?thesis
          proof (cases "truthy v")
            case True
            with Inr nb fn \<open>i < length (list_of_conditions (world s))\<close> inv 1(2) w
            show ?thesis by (auto simp: Let_def)
          next
            case fv: False
            with Inr nb fn True inv 1(2) have "rec prog (i + 1) t = Some y"
              by (auto simp: Let_def)
            from 1(1)[OF this] w show ?thesis by (rule written_by_calls_trans[rotated])
          qed
        qed
      qed
    qed
  qed
qed

lemma invoke_leaves_list:
  assumes "leaves_list prog" and "invoke prog c s = (r, s')"
  shows "list_of_conditions (world s') = list_of_conditions (world s)"
proof -
  have body: "list_of_conditions (world t) = list_of_conditions (world s)"
    if "call_body prog f s = (q, t)" for f q t
  proof -
    obtain a h where p: "prog f (world s) = (a, h)" by (cases "prog f (world s)")
    from assms(1) have "list_of_conditions (snd (prog f (world s))) = list_of_conditions (world s)"
      by (simp add: leaves_list_def)
    with p that show ?thesis by (auto simp: call_body_def)
  qed
  from assms(2) show ?thesis by (cases c) (auto dest: body)
qed

lemma lazy_all_iter_refines:
  assumes pres: "leaves_list prog"
  shows "length (list_of_conditions (world s)) - i = k \<Longrightarrow>
         lazy_all_iter prog i n s
           = Some (lazy_all_loop prog (drop i (list_of_conditions (world s))) n s)"
proof (induction k arbitrary: i n s)
  case 0
  then show ?case by (subst lazy_all_iter.simps) simp
next
  case (Suc k)
  let ?xs = "list_of_conditions (world s)"
  from Suc.prems have lt: "i < length ?xs" by simp
  then have dr: "drop i ?xs = ?xs ! i # drop (Suc i) ?xs"
    by (simp add: Cons_nth_drop_Suc)
  obtain r t where inv: "invoke prog (?xs ! i) s = (r, t)" by (cases "invoke prog (?xs ! i) s")
  note same = invoke_leaves_list[OF pres inv]
  from Suc.prems have "length ?xs - Suc i = k" by simp
  note here = Suc.IH[OF this]
  from Suc.prems same have "length (list_of_conditions (world t)) - Suc i = k" by simp
  from Suc.IH[OF this] same
  have there: "lazy_all_iter prog (Suc i) m t = Some (lazy_all_loop prog (drop (Suc i) ?xs) m t)" for m
    by simp
  show ?case
    by (subst lazy_all_iter.simps)
       (simp add: lt dr Let_def inv here there split: sum.splits)
qed

lemma lazy_any_iter_refines:
  assumes pres: "leaves_list prog"
  shows "length (list_of_conditions (world s)) - i = k \<Longrightarrow>
         lazy_any_iter prog i s
           = Some (lazy_any prog (drop i (list_of_conditions (world s))) s)"
proof (induction k arbitrary: i s)
  case 0
  then show ?case by (subst lazy_any_iter.simps) simp
next
  case (Suc k)
  let ?xs = "list_of_conditions (world s)"
  from Suc.prems have lt: "i < length ?xs" by simp
  then have dr: "drop i ?xs = ?xs ! i # drop (Suc i) ?xs"
    by (simp add: Cons_nth_drop_Suc)
  obtain r t where inv: "invoke prog (?xs ! i) s = (r, t)" by (cases "invoke prog (?xs ! i) s")
  note same = invoke_leaves_list[OF pres inv]
  from Suc.prems have "length ?xs - Suc i = k" by simp
  note here = Suc.IH[OF this]
  from Suc.prems same have "length (list_of_conditions (world t)) - Suc i = k" by simp
  from Suc.IH[OF this] same
  have there: "lazy_any_iter prog (Suc i) t = Some (lazy_any prog (drop (Suc i) ?xs) t)"
    by simp
  show ?case
    by (subst lazy_any_iter.simps)
       (simp add: lt dr Let_def inv here there split: sum.splits)
qed

lemma written_leaves_list:
  assumes "leaves_list prog" and "written_by_calls prog s s'"
  shows "list_of_conditions (world s') = list_of_conditions (world s)"
proof -
  have "list_of_conditions (foldl (\<lambda>h f. snd (prog f h)) h cs) = list_of_conditions h" for h cs
    using assms(1) by (induction cs arbitrary: h) (simp_all add: leaves_list_def)
  with assms(2) show ?thesis unfolding written_by_calls_def by auto
qed

lemma appender_all_run:
  "lazy_all_in_heap appender (listed [VFunction 5])
     = Some (Inr False, \<lparr>world = \<lparr>list_of_conditions = [VFunction 5, VBool False], others = 1\<rparr>,
                          calls = [5]\<rparr>)"
  unfolding lazy_all_in_heap_def
  apply (subst lazy_all_iter.simps)
  apply (simp add: listed_def call_body_def appender_def)
  apply (subst lazy_all_iter.simps)
  apply simp
  done

lemma appender_any_run:
  "lazy_any_in_heap appender (listed [VFunction 5])
     = Some (Inr True, \<lparr>world = \<lparr>list_of_conditions = [VFunction 5, VBool False], others = 1\<rparr>,
                          calls = [5]\<rparr>)"
  unfolding lazy_any_in_heap_def
  apply (subst lazy_any_iter.simps)
  apply (simp add: listed_def call_body_def appender_def)
  done

section \<open>Short circuit of \<open>lazy_all\<close>\<close>

text \<open>
  C1. When every evaluated entry of the part \<open>pre\<close> of the list yields a true value and
  the next entry \<open>c\<close> is evaluated and yields a false value, \<open>lazy_all\<close> returns
  \<^verbatim>\<open>False\<close> in the state that considering \<open>c\<close> left, whatever follows \<open>c\<close> in the
  list: the calls made are those of the functions of \<open>pre\<close> and of \<open>c\<close>, in this order,
  and no entry after \<open>c\<close> is evaluated.
\<close>

theorem lazy_all_short_circuit:
  assumes "scan prog True pre s = Some s1"
    and "evaluate prog c s1 = (Yields False, s2)"
  shows "lazy_all prog (pre @ c # post) s = (Inr False, s2) \<and>
         calls s2 = calls s @ function_ids (pre @ [c])"
proof -
  have "lazy_all prog (pre @ c # post) s =
        lazy_all_loop prog (c # post) (0 + int (length (filter is_evaluated pre))) s1"
    unfolding lazy_all_def by (rule lazy_all_loop_append[OF assms(1)])
  also have "\<dots> = (Inr False, s2)"
    using assms(2) by (auto simp: evaluate_def split: if_splits prod.splits sum.splits)
  finally have res: "lazy_all prog (pre @ c # post) s = (Inr False, s2)" .
  have "calls s2 = calls s1 @ function_ids [c]"
    by (rule evaluate_calls[OF assms(2)])
  with scan_calls[OF assms(1)] have "calls s2 = calls s @ function_ids (pre @ [c])"
    by (simp add: function_ids_append)
  with res show ?thesis by simp
qed

theorem lazy_all_short_circuit_witness:
  "scan demo True [VBool True, VInt 7, VFunction 2] start = Some \<lparr>world = 1, calls = [2]\<rparr> \<and>
   evaluate demo (VFunction 1) \<lparr>world = 1, calls = [2]\<rparr> = (Yields False, \<lparr>world = 2, calls = [2, 1]\<rparr>) \<and>
   lazy_all demo ([VBool True, VInt 7, VFunction 2] @ VFunction 1 # [VFunction 0, VBool True]) start
     = (Inr False, \<lparr>world = 2, calls = [2, 1]\<rparr>)"
proof -
  have h1: "scan demo True [VBool True, VInt 7, VFunction 2] start = Some \<lparr>world = 1, calls = [2]\<rparr>"
    by (simp add: evaluate_def call_body_def demo_def start_def)
  have h2: "evaluate demo (VFunction 1) \<lparr>world = 1, calls = [2]\<rparr>
              = (Yields False, \<lparr>world = 2, calls = [2, 1]\<rparr>)"
    by (simp add: evaluate_def call_body_def demo_def)
  from lazy_all_short_circuit[OF h1 h2, of "[VFunction 0, VBool True]"] h1 h2
  show ?thesis by simp
qed

section \<open>The result of \<open>lazy_all\<close> when no entry is false\<close>

text \<open>
  C2. When every evaluated entry of the list yields a true value, \<open>lazy_all\<close> returns
  \<^verbatim>\<open>True\<close> if and only if some entry of the list is evaluated (is a boolean or a
  function). In particular it returns \<^verbatim>\<open>False\<close> on the empty list and on a list
  all of whose entries are skipped.
\<close>

theorem lazy_all_completes:
  "(scan prog True xs s = Some s' \<longrightarrow>
      lazy_all prog xs s = (Inr (\<exists>c\<in>set xs. is_evaluated c), s')) \<and>
   lazy_all prog [] s = (Inr False, s) \<and>
   ((\<forall>c\<in>set xs. \<not> is_evaluated c) \<longrightarrow> lazy_all prog xs s = (Inr False, s))"
proof -
  have general: "lazy_all prog ys t = (Inr (\<exists>c\<in>set ys. is_evaluated c), t')"
    if "scan prog True ys t = Some t'" for ys t t'
  proof -
    have "lazy_all prog (ys @ []) t =
          lazy_all_loop prog [] (0 + int (length (filter is_evaluated ys))) t'"
      unfolding lazy_all_def by (rule lazy_all_loop_append[OF that])
    then show ?thesis by (simp add: filter_empty_conv)
  qed
  have skipped: "lazy_all prog xs s = (Inr False, s)" if "\<forall>c\<in>set xs. \<not> is_evaluated c"
    using general[OF scan_skipped[OF that]] that by simp
  from general skipped show ?thesis by (simp add: lazy_all_def)
qed

theorem lazy_all_completes_witness:
  "scan demo True [VBool True, VInt 7, VFunction 2] start = Some \<lparr>world = 1, calls = [2]\<rparr> \<and>
   lazy_all demo [VBool True, VInt 7, VFunction 2] start = (Inr True, \<lparr>world = 1, calls = [2]\<rparr>) \<and>
   lazy_all demo [] start = (Inr False, start) \<and>
   lazy_all demo [VInt 5, VStr ''x'', VNone] start = (Inr False, start)"
proof -
  have h1: "scan demo True [VBool True, VInt 7, VFunction 2] start = Some \<lparr>world = 1, calls = [2]\<rparr>"
    by (simp add: evaluate_def call_body_def demo_def start_def)
  have h2: "\<forall>c\<in>set [VInt 5, VStr ''x'', VNone]. \<not> is_evaluated c"
    by (simp add: is_evaluated_def)
  from lazy_all_completes[of demo "[VBool True, VInt 7, VFunction 2]" start "\<lparr>world = 1, calls = [2]\<rparr>"]
    lazy_all_completes[of demo "[VInt 5, VStr ''x'', VNone]" start start] h1 h2
  show ?thesis by (simp add: is_evaluated_def)
qed

section \<open>The result of \<open>lazy_any\<close>\<close>

text \<open>
  C3. \<open>lazy_any\<close> returns \<^verbatim>\<open>True\<close> if and only if, scanning the list in its order, an
  evaluated entry (a boolean or a function) yields a true value after entries that were
  skipped or yielded false values. It returns \<^verbatim>\<open>False\<close> if and only if the scan reaches
  the end of the list with every evaluated entry yielding a false value, which is so for
  the empty list and for a list all of whose entries are skipped. When no function of the
  program raises, the call returns one of the two.
\<close>

theorem lazy_any_result:
  "(lazy_any prog xs s = (Inr True, s') \<longleftrightarrow>
      (\<exists>pre c post s1. xs = pre @ c # post \<and> scan prog False pre s = Some s1 \<and>
          evaluate prog c s1 = (Yields True, s'))) \<and>
   (lazy_any prog xs s = (Inr False, s') \<longleftrightarrow> scan prog False xs s = Some s') \<and>
   lazy_any prog [] s = (Inr False, s) \<and>
   ((\<forall>c\<in>set xs. \<not> is_evaluated c) \<longrightarrow> lazy_any prog xs s = (Inr False, s)) \<and>
   ((\<forall>f w. \<exists>v w'. prog f w = (Inr v, w')) \<longrightarrow> (\<exists>b t. lazy_any prog xs s = (Inr b, t)))"
proof -
  have t: "lazy_any prog xs s = (Inr True, s') \<longleftrightarrow>
      (\<exists>pre c post s1. xs = pre @ c # post \<and> scan prog False pre s = Some s1 \<and>
          evaluate prog c s1 = (Yields True, s'))"
    using lazy_any_True_split[of prog xs s s'] lazy_any_at_True[of prog _ s _ _ s'] by blast
  have sk: "lazy_any prog xs s = (Inr False, s)" if "\<forall>c\<in>set xs. \<not> is_evaluated c"
    using scan_skipped[OF that, of prog False s] by (simp add: lazy_any_False_scan)
  from t sk lazy_any_returns[of prog xs s] show ?thesis
    by (simp add: lazy_any_False_scan)
qed

theorem lazy_any_result_witness:
  "lazy_any demo [VBool False, VInt 7, VFunction 3, VFunction 2, VFunction 4] start
      = (Inr True, \<lparr>world = 2, calls = [3, 2]\<rparr>) \<and>
   lazy_any demo [VFunction 1, VBool False, VStr ''x''] start = (Inr False, \<lparr>world = 1, calls = [1]\<rparr>) \<and>
   lazy_any demo [] start = (Inr False, start) \<and>
   lazy_any demo [VInt 5, VNone] start = (Inr False, start) \<and>
   (\<forall>f w. \<exists>v w'. threshold f w = (Inr v, w')) \<and>
   (\<exists>b t. lazy_any threshold [VFunction 1, VFunction 1] start = (Inr b, t))"
proof -
  have h5: "\<forall>f w. \<exists>v w'. threshold f w = (Inr v, w')" by (simp add: threshold_def)
  from lazy_any_result[of threshold "[VFunction 1, VFunction 1]" start start] h5
  have r4: "\<exists>b t. lazy_any threshold [VFunction 1, VFunction 1] start = (Inr b, t)" by blast
  have h1: "scan demo False [VBool False, VInt 7, VFunction 3] start = Some \<lparr>world = 1, calls = [3]\<rparr>"
    by (simp add: evaluate_def call_body_def demo_def start_def)
  have h2: "evaluate demo (VFunction 2) \<lparr>world = 1, calls = [3]\<rparr>
      = (Yields True, \<lparr>world = 2, calls = [3, 2]\<rparr>)"
    by (simp add: evaluate_def call_body_def demo_def)
  have h3: "scan demo False [VFunction 1, VBool False, VStr ''x''] start = Some \<lparr>world = 1, calls = [1]\<rparr>"
    by (simp add: evaluate_def call_body_def demo_def start_def)
  have h4: "\<forall>c\<in>set [VInt 5, VNone]. \<not> is_evaluated c"
    by (simp add: is_evaluated_def)
  have ex: "\<exists>pre c post s1.
      [VBool False, VInt 7, VFunction 3, VFunction 2, VFunction 4] = pre @ c # post \<and>
      scan demo False pre start = Some s1 \<and>
      evaluate demo c s1 = (Yields True, \<lparr>world = 2, calls = [3, 2]\<rparr>)"
    using h1 h2
    by (intro exI[of _ "[VBool False, VInt 7, VFunction 3]"] exI[of _ "VFunction 2"]
          exI[of _ "[VFunction 4]"] exI[of _ "\<lparr>world = 1, calls = [3]\<rparr>"]) simp
  from lazy_any_result[of demo "[VBool False, VInt 7, VFunction 3, VFunction 2, VFunction 4]" start
      "\<lparr>world = 2, calls = [3, 2]\<rparr>"] ex
  have r1: "lazy_any demo [VBool False, VInt 7, VFunction 3, VFunction 2, VFunction 4] start
      = (Inr True, \<lparr>world = 2, calls = [3, 2]\<rparr>)" by blast
  from lazy_any_result[of demo "[VFunction 1, VBool False, VStr ''x'']" start
      "\<lparr>world = 1, calls = [1]\<rparr>"] h3
  have r2: "lazy_any demo [VFunction 1, VBool False, VStr ''x''] start
      = (Inr False, \<lparr>world = 1, calls = [1]\<rparr>)" by blast
  from lazy_any_result[of demo "[VInt 5, VNone]" start start] h4
  have r3: "lazy_any demo [VInt 5, VNone] start = (Inr False, start)" by blast
  from r1 r2 r3 r4 h5 show ?thesis by simp
qed

section \<open>The order of the calls of \<open>lazy_any\<close>\<close>

text \<open>
  C4. The calls that \<open>lazy_any\<close> makes are those of the functions of a beginning of the
  list, in the order of the list. Once an evaluated entry yields a true value the call
  returns \<^verbatim>\<open>True\<close> and nothing after that entry is evaluated. For a list of two
  functions: the first is called in the starting world; when what it returns is true the
  second is not called, and otherwise the second is considered in the world the first
  left.
\<close>

theorem lazy_any_order:
  "(\<exists>k\<le>length xs. calls (snd (lazy_any prog xs s)) = calls s @ function_ids (take k xs)) \<and>
   (scan prog False pre s = Some s1 \<and> evaluate prog c s1 = (Yields True, s2) \<longrightarrow>
      lazy_any prog (pre @ c # post) s = (Inr True, s2) \<and>
      calls s2 = calls s @ function_ids (pre @ [c])) \<and>
   (prog a (world s) = (Inr v, w) \<longrightarrow>
      lazy_any prog [VFunction a, VFunction b] s =
        (if truthy v then (Inr True, \<lparr>world = w, calls = calls s @ [a]\<rparr>)
         else lazy_any prog [VFunction b] \<lparr>world = w, calls = calls s @ [a]\<rparr>))"
proof -
  have short: "lazy_any prog (pre @ c # post) s = (Inr True, s2) \<and>
      calls s2 = calls s @ function_ids (pre @ [c])"
    if h: "scan prog False pre s = Some s1" "evaluate prog c s1 = (Yields True, s2)"
  proof -
    from evaluate_calls[OF h(2)] scan_calls[OF h(1)]
    have "calls s2 = calls s @ function_ids (pre @ [c])"
      by (simp add: function_ids_append)
    with lazy_any_at_True[OF h] show ?thesis by simp
  qed
  have two: "lazy_any prog [VFunction a, VFunction b] s =
        (if truthy v then (Inr True, \<lparr>world = w, calls = calls s @ [a]\<rparr>)
         else lazy_any prog [VFunction b] \<lparr>world = w, calls = calls s @ [a]\<rparr>)"
    if "prog a (world s) = (Inr v, w)"
    using that by (simp add: call_body_def)
  from lazy_any_calls_prefix[of xs prog s] short two show ?thesis by blast
qed

theorem lazy_any_order_witness:
  "lazy_any demo [VFunction 2, VFunction 1] start = (Inr True, \<lparr>world = 1, calls = [2]\<rparr>) \<and>
   lazy_any demo [VFunction 3, VFunction 0] start = (Inr True, \<lparr>world = 2, calls = [3, 0]\<rparr>) \<and>
   lazy_any demo ([VFunction 1, VInt 7] @ VFunction 0 # [VFunction 4]) start
      = (Inr True, \<lparr>world = 2, calls = [1, 0]\<rparr>)"
proof -
  have h1: "scan demo False [VFunction 1, VInt 7] start = Some \<lparr>world = 1, calls = [1]\<rparr>"
    by (simp add: evaluate_def call_body_def demo_def start_def)
  have h2: "evaluate demo (VFunction 0) \<lparr>world = 1, calls = [1]\<rparr>
      = (Yields True, \<lparr>world = 2, calls = [1, 0]\<rparr>)"
    by (simp add: evaluate_def call_body_def demo_def)
  have h3: "demo 2 (world start) = (Inr (VInt 5), 1)"
    by (simp add: demo_def start_def)
  have h4: "demo 3 (world start) = (Inr (VInt 0), 1)"
    by (simp add: demo_def start_def)
  from lazy_any_order[of "[]" demo start "[VFunction 1, VInt 7]" "\<lparr>world = 1, calls = [1]\<rparr>"
      "VFunction 0" "\<lparr>world = 2, calls = [1, 0]\<rparr>" "[VFunction 4]" 2 "VInt 5" 1 1]
    lazy_any_order[of "[]" demo start "[]" start "VNone" start "[]" 3 "VInt 0" 1 0] h1 h2 h3 h4
  show ?thesis by (simp add: call_body_def demo_def start_def)
qed

section \<open>Entries that are neither booleans nor functions\<close>

text \<open>
  C5. An entry that is neither a boolean nor a function is no error for \<open>lazy_all\<close> and
  \<open>lazy_any\<close>: both behave on the list as they do on the list without that entry, with
  the same result, the same world and the same calls, so the entry is neither called
  nor counted; a list of one such entry gives \<^verbatim>\<open>False\<close> and no call.
\<close>

theorem skipped_entries:
  assumes "\<not> isinstance_bool c" and "\<not> isinstance_FunctionType c"
  shows "lazy_all prog (pre @ c # post) s = lazy_all prog (pre @ post) s \<and>
         lazy_any prog (pre @ c # post) s = lazy_any prog (pre @ post) s \<and>
         lazy_all prog [c] s = (Inr False, s) \<and>
         lazy_any prog [c] s = (Inr False, s)"
proof -
  from assms have ne: "\<not> is_evaluated c" by (simp add: is_evaluated_def)
  have "lazy_all prog (pre @ c # post) s = lazy_all prog (pre @ post) s"
    unfolding lazy_all_def by (rule lazy_all_loop_skip[OF ne])
  moreover note lazy_any_skip[OF ne, of prog pre post s]
  moreover from assms have "lazy_all prog [c] s = (Inr False, s)"
    by (simp add: lazy_all_def)
  moreover from assms have "lazy_any prog [c] s = (Inr False, s)" by simp
  ultimately show ?thesis by simp
qed

theorem skipped_entries_witness:
  "\<not> isinstance_bool (VCallable 4) \<and> \<not> isinstance_FunctionType (VCallable 4) \<and>
   lazy_all demo ([VBool True] @ VCallable 4 # [VFunction 2]) start = (Inr True, \<lparr>world = 1, calls = [2]\<rparr>) \<and>
   lazy_any demo ([VBool False] @ VCallable 4 # [VFunction 2]) start = (Inr True, \<lparr>world = 1, calls = [2]\<rparr>) \<and>
   lazy_all demo [VCallable 4] start = (Inr False, start) \<and>
   lazy_any demo [VCallable 4] start = (Inr False, start)"
proof -
  have h1: "\<not> isinstance_bool (VCallable 4)" and h2: "\<not> isinstance_FunctionType (VCallable 4)"
    by simp_all
  from skipped_entries[OF h1 h2, of demo "[VBool True]" "[VFunction 2]" start]
    skipped_entries[OF h1 h2, of demo "[VBool False]" "[VFunction 2]" start]
  show ?thesis by (simp add: lazy_all_def call_body_def demo_def start_def)
qed

section \<open>When a function is called and how its value counts\<close>

text \<open>
  C6. A function in the list is called when the loop reaches its position: in the world
  that the entries before it left, after their calls and before any later one. What it
  returns counts by its truth value: \<^verbatim>\<open>None\<close>, \<^verbatim>\<open>False\<close>, zero and the empty string,
  list and tuple are false, every other object is true. On a false value \<open>lazy_all\<close>
  returns \<^verbatim>\<open>False\<close> and \<open>lazy_any\<close> goes on; on a true value \<open>lazy_any\<close> returns
  \<^verbatim>\<open>True\<close> and \<open>lazy_all\<close> goes on with one more evaluated entry.
\<close>

theorem thunk_invoked_in_place:
  "(scan prog True pre s = Some s1 \<and> prog f (world s1) = (Inr v, w) \<longrightarrow>
      lazy_all prog (pre @ VFunction f # post) s =
        (if truthy v
         then lazy_all_loop prog post (int (length (filter is_evaluated pre)) + 1)
                \<lparr>world = w, calls = calls s @ function_ids pre @ [f]\<rparr>
         else (Inr False, \<lparr>world = w, calls = calls s @ function_ids pre @ [f]\<rparr>))) \<and>
   (scan prog False pre s = Some s1 \<and> prog f (world s1) = (Inr v, w) \<longrightarrow>
      lazy_any prog (pre @ VFunction f # post) s =
        (if truthy v
         then (Inr True, \<lparr>world = w, calls = calls s @ function_ids pre @ [f]\<rparr>)
         else lazy_any prog post \<lparr>world = w, calls = calls s @ function_ids pre @ [f]\<rparr>)) \<and>
   (truthy v \<longleftrightarrow> v \<notin> {VNone, VBool False, VInt 0, VStr [], VList [], VTuple []})"
proof -
  have all: "lazy_all prog (pre @ VFunction f # post) s =
        (if truthy v
         then lazy_all_loop prog post (int (length (filter is_evaluated pre)) + 1)
                \<lparr>world = w, calls = calls s @ function_ids pre @ [f]\<rparr>
         else (Inr False, \<lparr>world = w, calls = calls s @ function_ids pre @ [f]\<rparr>))"
    if h: "scan prog True pre s = Some s1" "prog f (world s1) = (Inr v, w)"
  proof -
    have "lazy_all prog (pre @ VFunction f # post) s =
          lazy_all_loop prog (VFunction f # post) (0 + int (length (filter is_evaluated pre))) s1"
      unfolding lazy_all_def by (rule lazy_all_loop_append[OF h(1)])
    with h(2) scan_calls[OF h(1)] show ?thesis by (simp add: call_body_def)
  qed
  have any: "lazy_any prog (pre @ VFunction f # post) s =
        (if truthy v
         then (Inr True, \<lparr>world = w, calls = calls s @ function_ids pre @ [f]\<rparr>)
         else lazy_any prog post \<lparr>world = w, calls = calls s @ function_ids pre @ [f]\<rparr>)"
    if h: "scan prog False pre s = Some s1" "prog f (world s1) = (Inr v, w)"
    using lazy_any_append[OF h(1), of "VFunction f # post"] h(2) scan_calls[OF h(1)]
    by (simp add: call_body_def)
  from all any falsy_objects[of v] show ?thesis by blast
qed

theorem thunk_invoked_in_place_witness:
  "lazy_all demo ([VBool True, VFunction 0] @ VFunction 2 # []) start
      = (Inr True, \<lparr>world = 2, calls = [0, 2]\<rparr>) \<and>
   lazy_all demo ([VBool True, VFunction 2] @ VFunction 3 # [VFunction 4]) start
      = (Inr False, \<lparr>world = 2, calls = [2, 3]\<rparr>) \<and>
   lazy_any demo ([VBool False, VFunction 3] @ VFunction 2 # [VFunction 4]) start
      = (Inr True, \<lparr>world = 2, calls = [3, 2]\<rparr>) \<and>
   truthy (VInt 5) \<and> \<not> truthy (VInt 0)"
proof -
  have a1: "scan demo True [VBool True, VFunction 0] start = Some \<lparr>world = 1, calls = [0]\<rparr>"
    by (simp add: evaluate_def call_body_def demo_def start_def)
  have a2: "scan demo True [VBool True, VFunction 2] start = Some \<lparr>world = 1, calls = [2]\<rparr>"
    by (simp add: evaluate_def call_body_def demo_def start_def)
  have a3: "scan demo False [VBool False, VFunction 3] start = Some \<lparr>world = 1, calls = [3]\<rparr>"
    by (simp add: evaluate_def call_body_def demo_def start_def)
  have b2: "demo 2 (world \<lparr>world = 1::nat, calls = cs\<rparr>) = (Inr (VInt 5), 2)" for cs
    by (simp add: demo_def)
  have b3: "demo 3 (world \<lparr>world = 1::nat, calls = cs\<rparr>) = (Inr (VInt 0), 2)" for cs
    by (simp add: demo_def)
  from thunk_invoked_in_place[of demo "[VBool True, VFunction 0]" start
      "\<lparr>world = 1, calls = [0]\<rparr>" 2 "VInt 5" 2 "[]"]
    thunk_invoked_in_place[of demo "[VBool True, VFunction 2]" start
      "\<lparr>world = 1, calls = [2]\<rparr>" 3 "VInt 0" 2 "[VFunction 4]"]
    thunk_invoked_in_place[of demo "[VBool False, VFunction 3]" start
      "\<lparr>world = 1, calls = [3]\<rparr>" 2 "VInt 5" 2 "[VFunction 4]"]
    a1 a2 a3 b2 b3
  show ?thesis by (simp add: is_evaluated_def start_def)
qed

section \<open>Exceptions of the functions\<close>

text \<open>
  C7. When a function that \<open>lazy_all\<close> or \<open>lazy_any\<close> calls raises an exception, the
  call of \<open>lazy_all\<close> or \<open>lazy_any\<close> ends with that same exception, in the state the
  function left; the function was called once and no entry after it is evaluated.
\<close>

theorem thunk_exception_propagates:
  "(scan prog True pre s = Some s1 \<and> prog f (world s1) = (Inl e, w) \<longrightarrow>
      lazy_all prog (pre @ VFunction f # post) s =
        (Inl e, \<lparr>world = w, calls = calls s @ function_ids pre @ [f]\<rparr>)) \<and>
   (scan prog False pre s = Some s1 \<and> prog f (world s1) = (Inl e, w) \<longrightarrow>
      lazy_any prog (pre @ VFunction f # post) s =
        (Inl e, \<lparr>world = w, calls = calls s @ function_ids pre @ [f]\<rparr>))"
proof -
  have all: "lazy_all prog (pre @ VFunction f # post) s =
        (Inl e, \<lparr>world = w, calls = calls s @ function_ids pre @ [f]\<rparr>)"
    if h: "scan prog True pre s = Some s1" "prog f (world s1) = (Inl e, w)"
  proof -
    have "lazy_all prog (pre @ VFunction f # post) s =
          lazy_all_loop prog (VFunction f # post) (0 + int (length (filter is_evaluated pre))) s1"
      unfolding lazy_all_def by (rule lazy_all_loop_append[OF h(1)])
    with h(2) scan_calls[OF h(1)] show ?thesis by (simp add: call_body_def)
  qed
  have any: "lazy_any prog (pre @ VFunction f # post) s =
        (Inl e, \<lparr>world = w, calls = calls s @ function_ids pre @ [f]\<rparr>)"
    if h: "scan prog False pre s = Some s1" "prog f (world s1) = (Inl e, w)"
    using lazy_any_append[OF h(1), of "VFunction f # post"] h(2) scan_calls[OF h(1)]
    by (simp add: call_body_def)
  from all any show ?thesis by blast
qed

theorem thunk_exception_propagates_witness:
  "lazy_all demo ([VBool True, VFunction 2] @ VFunction 4 # [VFunction 1, VBool False]) start
      = (Inl (Exception ''ZeroDivisionError'' ''division by zero''), \<lparr>world = 2, calls = [2, 4]\<rparr>) \<and>
   lazy_any demo ([VBool False, VFunction 3] @ VFunction 4 # [VFunction 0, VBool True]) start
      = (Inl (Exception ''ZeroDivisionError'' ''division by zero''), \<lparr>world = 2, calls = [3, 4]\<rparr>)"
proof -
  have a2: "scan demo True [VBool True, VFunction 2] start = Some \<lparr>world = 1, calls = [2]\<rparr>"
    by (simp add: evaluate_def call_body_def demo_def start_def)
  have a3: "scan demo False [VBool False, VFunction 3] start = Some \<lparr>world = 1, calls = [3]\<rparr>"
    by (simp add: evaluate_def call_body_def demo_def start_def)
  have b: "demo 4 (world \<lparr>world = 1::nat, calls = cs\<rparr>)
      = (Inl (Exception ''ZeroDivisionError'' ''division by zero''), 2)" for cs
    by (simp add: demo_def)
  from thunk_exception_propagates[of demo "[VBool True, VFunction 2]" start
      "\<lparr>world = 1, calls = [2]\<rparr>" 4 "Exception ''ZeroDivisionError'' ''division by zero''" 2
      "[VFunction 1, VBool False]"]
    thunk_exception_propagates[of demo "[VBool False, VFunction 3]" start
      "\<lparr>world = 1, calls = [3]\<rparr>" 4 "Exception ''ZeroDivisionError'' ''division by zero''" 2
      "[VFunction 0, VBool True]"]
    a2 a3 b
  show ?thesis by (simp add: start_def)
qed

section \<open>The list is only read\<close>

text \<open>
  C8. \<open>lazy_all\<close> and \<open>lazy_any\<close> write nothing: when a call on the list in the heap
  returns, the heap it leaves is the one the functions it called produced, one after the
  other. So when no function of the caller writes the list object, the call returns, with
  the result that the functions above give on the contents of the list, and the
  contents of the list are the same after the call as before.
\<close>

theorem list_only_read:
  "(lazy_all_in_heap prog s = Some (r, s') \<longrightarrow> written_by_calls prog s s') \<and>
   (lazy_any_in_heap prog s = Some (r, s') \<longrightarrow> written_by_calls prog s s') \<and>
   (leaves_list prog \<longrightarrow>
      (\<exists>r1 s1. lazy_all_in_heap prog s = Some (r1, s1) \<and>
          (r1, s1) = lazy_all prog (list_of_conditions (world s)) s \<and>
          list_of_conditions (world s1) = list_of_conditions (world s)) \<and>
      (\<exists>r2 s2. lazy_any_in_heap prog s = Some (r2, s2) \<and>
          (r2, s2) = lazy_any prog (list_of_conditions (world s)) s \<and>
          list_of_conditions (world s2) = list_of_conditions (world s)))"
proof -
  have w1: "written_by_calls prog s s'" if "lazy_all_in_heap prog s = Some (r, s')"
    using lazy_all_iter_written[of prog 0 0 s "(r, s')"] that
    by (simp add: lazy_all_in_heap_def)
  have w2: "written_by_calls prog s s'" if "lazy_any_in_heap prog s = Some (r, s')"
    using lazy_any_iter_written[of prog 0 s "(r, s')"] that
    by (simp add: lazy_any_in_heap_def)
  have all: "\<exists>r1 s1. lazy_all_in_heap prog s = Some (r1, s1) \<and>
          (r1, s1) = lazy_all prog (list_of_conditions (world s)) s \<and>
          list_of_conditions (world s1) = list_of_conditions (world s)"
    if l: "leaves_list prog"
  proof -
    obtain r1 s1 where v: "lazy_all prog (list_of_conditions (world s)) s = (r1, s1)"
      by (cases "lazy_all prog (list_of_conditions (world s)) s")
    from lazy_all_iter_refines[OF l, of s 0 _ 0] v
    have run: "lazy_all_in_heap prog s = Some (r1, s1)"
      by (simp add: lazy_all_in_heap_def lazy_all_def)
    from lazy_all_iter_written[of prog 0 0 s "(r1, s1)"] run
    have "written_by_calls prog s s1" by (simp add: lazy_all_in_heap_def)
    from written_leaves_list[OF l this] run v show ?thesis by simp
  qed
  have any: "\<exists>r2 s2. lazy_any_in_heap prog s = Some (r2, s2) \<and>
          (r2, s2) = lazy_any prog (list_of_conditions (world s)) s \<and>
          list_of_conditions (world s2) = list_of_conditions (world s)"
    if l: "leaves_list prog"
  proof -
    obtain r2 s2 where v: "lazy_any prog (list_of_conditions (world s)) s = (r2, s2)"
      by (cases "lazy_any prog (list_of_conditions (world s)) s")
    from lazy_any_iter_refines[OF l, of s 0 _] v
    have run: "lazy_any_in_heap prog s = Some (r2, s2)"
      by (simp add: lazy_any_in_heap_def)
    from lazy_any_iter_written[of prog 0 s "(r2, s2)"] run
    have "written_by_calls prog s s2" by (simp add: lazy_any_in_heap_def)
    from written_leaves_list[OF l this] run v show ?thesis by simp
  qed
  from w1 w2 all any show ?thesis by blast
qed

theorem list_only_read_witness:
  "lazy_all_in_heap appender (listed [VFunction 5])
     = Some (Inr False, \<lparr>world = \<lparr>list_of_conditions = [VFunction 5, VBool False], others = 1\<rparr>,
                          calls = [5]\<rparr>) \<and>
   written_by_calls appender (listed [VFunction 5])
     \<lparr>world = \<lparr>list_of_conditions = [VFunction 5, VBool False], others = 1\<rparr>, calls = [5]\<rparr> \<and>
   lazy_any_in_heap appender (listed [VFunction 5])
     = Some (Inr True, \<lparr>world = \<lparr>list_of_conditions = [VFunction 5, VBool False], others = 1\<rparr>,
                         calls = [5]\<rparr>) \<and>
   leaves_list counter \<and>
   lazy_all_in_heap counter (listed [VFunction 0, VBool True, VFunction 1, VFunction 0])
     = Some (Inr False,
         \<lparr>world = \<lparr>list_of_conditions = [VFunction 0, VBool True, VFunction 1, VFunction 0], others = 2\<rparr>,
          calls = [0, 1]\<rparr>) \<and>
   lazy_any_in_heap counter (listed [VFunction 1, VInt 3, VFunction 0, VFunction 1])
     = Some (Inr True,
         \<lparr>world = \<lparr>list_of_conditions = [VFunction 1, VInt 3, VFunction 0, VFunction 1], others = 2\<rparr>,
          calls = [1, 0]\<rparr>)"
proof -
  have l: "leaves_list counter" by (simp add: leaves_list_def counter_def)
  from list_only_read[of appender "listed [VFunction 5]" "Inr False"
      "\<lparr>world = \<lparr>list_of_conditions = [VFunction 5, VBool False], others = 1\<rparr>, calls = [5]\<rparr>"]
    appender_all_run
  have w: "written_by_calls appender (listed [VFunction 5])
     \<lparr>world = \<lparr>list_of_conditions = [VFunction 5, VBool False], others = 1\<rparr>, calls = [5]\<rparr>"
    by blast
  from list_only_read[of counter "listed [VFunction 0, VBool True, VFunction 1, VFunction 0]"
      "Inr False" "listed []"] l
  have "\<exists>r1 s1.
      lazy_all_in_heap counter (listed [VFunction 0, VBool True, VFunction 1, VFunction 0])
        = Some (r1, s1) \<and>
      (r1, s1) = lazy_all counter
        (list_of_conditions (world (listed [VFunction 0, VBool True, VFunction 1, VFunction 0])))
        (listed [VFunction 0, VBool True, VFunction 1, VFunction 0]) \<and>
      list_of_conditions (world s1)
        = list_of_conditions (world (listed [VFunction 0, VBool True, VFunction 1, VFunction 0]))"
    by blast
  then have a: "lazy_all_in_heap counter (listed [VFunction 0, VBool True, VFunction 1, VFunction 0])
      = Some (lazy_all counter
          (list_of_conditions (world (listed [VFunction 0, VBool True, VFunction 1, VFunction 0])))
          (listed [VFunction 0, VBool True, VFunction 1, VFunction 0]))"
    by auto
  from list_only_read[of counter "listed [VFunction 1, VInt 3, VFunction 0, VFunction 1]"
      "Inr False" "listed []"] l
  have "\<exists>r2 s2.
      lazy_any_in_heap counter (listed [VFunction 1, VInt 3, VFunction 0, VFunction 1])
        = Some (r2, s2) \<and>
      (r2, s2) = lazy_any counter
        (list_of_conditions (world (listed [VFunction 1, VInt 3, VFunction 0, VFunction 1])))
        (listed [VFunction 1, VInt 3, VFunction 0, VFunction 1]) \<and>
      list_of_conditions (world s2)
        = list_of_conditions (world (listed [VFunction 1, VInt 3, VFunction 0, VFunction 1]))"
    by blast
  then have b: "lazy_any_in_heap counter (listed [VFunction 1, VInt 3, VFunction 0, VFunction 1])
      = Some (lazy_any counter
          (list_of_conditions (world (listed [VFunction 1, VInt 3, VFunction 0, VFunction 1])))
          (listed [VFunction 1, VInt 3, VFunction 0, VFunction 1]))"
    by auto
  from w l a b appender_all_run appender_any_run show ?thesis
    by (simp add: lazy_all_def call_body_def counter_def listed_def)
qed

section \<open>Lists of booleans\<close>

text \<open>
  C9. On a list that holds booleans only, \<open>lazy_any\<close> returns what Python's \<^verbatim>\<open>any\<close>
  returns, and on such a list that is not empty \<open>lazy_all\<close> returns what Python's
  \<^verbatim>\<open>all\<close> returns; on the empty list \<open>lazy_all\<close> returns \<^verbatim>\<open>False\<close> where \<^verbatim>\<open>all\<close>
  returns \<^verbatim>\<open>True\<close>. No call is made and the world is left as it is.
\<close>

theorem agree_with_standard_on_booleans:
  "lazy_any prog (map VBool bs) s = (Inr (std_any bs), s) \<and>
   (bs \<noteq> [] \<longrightarrow> lazy_all prog (map VBool bs) s = (Inr (std_all bs), s)) \<and>
   lazy_all prog (map VBool []) s = (Inr False, s) \<and> std_all [] = True"
proof -
  have "lazy_all prog (map VBool bs) s = (Inr (std_all bs), s)" if "bs \<noteq> []"
    using lazy_all_loop_bools[of 0 prog bs s] that by (simp add: lazy_all_def)
  then show ?thesis by (simp add: lazy_any_bools lazy_all_def)
qed

theorem agree_with_standard_on_booleans_witness:
  "lazy_any demo (map VBool [False, True, False]) start = (Inr True, start) \<and>
   lazy_all demo (map VBool [True, False, True]) start = (Inr False, start) \<and>
   lazy_all demo (map VBool [True, True]) start = (Inr True, start) \<and>
   lazy_all demo (map VBool []) start = (Inr False, start) \<and> std_all [] = True"
  using agree_with_standard_on_booleans[of demo "[False, True, False]" start]
    agree_with_standard_on_booleans[of demo "[True, False, True]" start]
    agree_with_standard_on_booleans[of demo "[True, True]" start]
  by simp

section \<open>\<open>lazy_any\<close> on a concatenation\<close>

text \<open>
  C10. When no function of the program raises, \<open>lazy_any\<close> on the concatenation of two
  lists returns what \<^verbatim>\<open>lazy_any(l1) or lazy_any(l2)\<close> returns from the same state: the
  disjunction of the two results, the second list being scanned, when the first gave
  \<^verbatim>\<open>False\<close>, in the state the first scan left. When the functions moreover leave the
  world as it is, the result is the disjunction of the results of the two lists, each
  taken from the starting state.
\<close>

theorem lazy_any_concatenation:
  assumes "\<forall>f w. \<exists>v w'. prog f w = (Inr v, w')"
  shows "lazy_any prog (l1 @ l2) s = py_or (lazy_any prog l1) (lazy_any prog l2) s \<and>
         (\<exists>b1 s1 b2 s2. lazy_any prog l1 s = (Inr b1, s1) \<and> lazy_any prog l2 s1 = (Inr b2, s2) \<and>
            lazy_any prog (l1 @ l2) s = (Inr (b1 \<or> b2), if b1 then s1 else s2)) \<and>
         ((\<forall>f w. snd (prog f w) = w) \<longrightarrow>
            (\<exists>b1 b2. fst (lazy_any prog l1 s) = Inr b1 \<and> fst (lazy_any prog l2 s) = Inr b2 \<and>
               fst (lazy_any prog (l1 @ l2) s) = Inr (b1 \<or> b2)))"
proof -
  from lazy_any_returns[OF assms] obtain b1 s1 where 1: "lazy_any prog l1 s = (Inr b1, s1)"
    by blast
  from lazy_any_returns[OF assms] obtain b2 s2 where 2: "lazy_any prog l2 s1 = (Inr b2, s2)"
    by blast
  have 3: "lazy_any prog (l1 @ l2) s = (Inr (b1 \<or> b2), if b1 then s1 else s2)"
    using 1 2 by (simp add: lazy_any_py_or py_or_def)
  have pure: "fst (lazy_any prog l2 s) = Inr b2" if "\<forall>f w. snd (prog f w) = w"
  proof -
    from lazy_any_pure_world[OF that, of l1 s] 1 have "world s1 = world s" by simp
    from lazy_any_world_only[OF this, of prog l2] 2 show ?thesis by simp
  qed
  from 1 3 pure have "(\<forall>f w. snd (prog f w) = w) \<longrightarrow>
            (\<exists>b1 b2. fst (lazy_any prog l1 s) = Inr b1 \<and> fst (lazy_any prog l2 s) = Inr b2 \<and>
               fst (lazy_any prog (l1 @ l2) s) = Inr (b1 \<or> b2))"
    by (intro impI exI[of _ b1] exI[of _ b2]) simp
  with 1 2 3 lazy_any_py_or[of prog l1 l2 s] show ?thesis by blast
qed

theorem lazy_any_concatenation_witness:
  "(\<forall>f w. \<exists>v w'. threshold f w = (Inr v, w')) \<and>
   lazy_any threshold [VFunction 1] start = (Inr False, \<lparr>world = 1, calls = [1]\<rparr>) \<and>
   lazy_any threshold [VFunction 1] \<lparr>world = 1, calls = [1]\<rparr> = (Inr True, \<lparr>world = 2, calls = [1, 1]\<rparr>) \<and>
   lazy_any threshold ([VFunction 1] @ [VFunction 1]) start = (Inr True, \<lparr>world = 2, calls = [1, 1]\<rparr>) \<and>
   (\<forall>f w. \<exists>v w'. parity f w = (Inr v, w')) \<and> (\<forall>f w. snd (parity f w) = w) \<and>
   fst (lazy_any parity [VFunction 2, VFunction 4] start) = Inr False \<and>
   fst (lazy_any parity [VBool False, VFunction 3] start) = Inr True \<and>
   fst (lazy_any parity ([VFunction 2, VFunction 4] @ [VBool False, VFunction 3]) start) = Inr True"
proof -
  have h: "\<forall>f w. \<exists>v w'. threshold f w = (Inr v, w')" by (simp add: threshold_def)
  have hp: "\<forall>f w. \<exists>v w'. parity f w = (Inr v, w')" by (simp add: parity_def)
  have pp: "\<forall>f w. snd (parity f w) = w" by (simp add: parity_def)
  from lazy_any_concatenation[OF h, of "[VFunction 1]" "[VFunction 1]" start]
  have a: "lazy_any threshold ([VFunction 1] @ [VFunction 1]) start = (Inr True, \<lparr>world = 2, calls = [1, 1]\<rparr>)"
    by (simp add: py_or_def call_body_def threshold_def start_def)
  from lazy_any_concatenation[OF hp, of "[VFunction 2, VFunction 4]" "[VBool False, VFunction 3]" start] pp
  have b: "fst (lazy_any parity ([VFunction 2, VFunction 4] @ [VBool False, VFunction 3]) start) = Inr True"
    by (simp add: py_or_def call_body_def parity_def start_def)
  from a b h hp pp show ?thesis
    by (simp add: call_body_def threshold_def parity_def start_def)
qed

end
